theory Spec2Isabelle
  imports Complex_Main
begin

section \<open>Data model of \<open>src/app/page.tsx\<close>\<close>

text \<open>
  The entries of \<open>DEFAULT_INITIAL\<close> and of \<open>savedConfig\<close> are objects
  \<open>{id, name, src, initial}\<close>; a \<open>Block\<close> has the same fields and \<open>count\<close>.
  The field \<open>id\<close> is written \<open>id'\<close>, since \<open>id\<close> is the identity function of HOL.
  A JavaScript \<open>number\<close> is modelled by an integer, negative ones included, as nothing
  in the source excludes them. The model and the source's double arithmetic agree
  wherever the counts are integers whose magnitudes add up to no more than \<open>2^53\<close>: there
  every sum and every \<open>count - 1\<close> is exact. The editor and the loader also install
  numbers outside that range without a check (a fraction such as \<open>0.5\<close>, a magnitude
  above \<open>2^53\<close>); what a draw does to such a count is not described by this model and
  is reported with C5.
\<close>

record config =
  id' :: string
  name :: string
  src :: string
  initial :: int

record block = config +
  count :: int

definition DEFAULT_INITIAL :: "config list" where
  "DEFAULT_INITIAL =
    [\<lparr>id' = ''red'', name = ''Merah'', src = ''/red.svg'', initial = 6\<rparr>,
     \<lparr>id' = ''blue'', name = ''Biru'', src = ''/blue.svg'', initial = 6\<rparr>,
     \<lparr>id' = ''green'', name = ''Hijau'', src = ''/green.svg'', initial = 6\<rparr>,
     \<lparr>id' = ''pink'', name = ''Pink'', src = ''/pink.svg'', initial = 6\<rparr>,
     \<lparr>id' = ''grey'', name = ''Abu'', src = ''/grey.svg'', initial = 6\<rparr>,
     \<lparr>id' = ''orange'', name = ''Oranye'', src = ''/orange.svg'', initial = 6\<rparr>,
     \<lparr>id' = ''yellow'', name = ''Kuning'', src = ''/yellow.svg'', initial = 6\<rparr>,
     \<lparr>id' = ''purple'', name = ''Ungu'', src = ''/purple.svg'', initial = 6\<rparr>]"

text \<open>
  \<open>{id: b.id, name: b.name, src: b.src, count: b.initial, initial: b.initial}\<close>, the
  object built by the initial state, by \<open>handleReset\<close> and by the effect on mount.
\<close>

definition toBlock :: "config \<Rightarrow> block" where
  "toBlock b = \<lparr>id' = id' b, name = name b, src = src b, initial = initial b, count = initial b\<rparr>"

text \<open>\<open>xs[i]\<close> of JavaScript: \<open>undefined\<close> (here \<open>None\<close>) outside the array.\<close>

definition elemAt :: "'a list \<Rightarrow> int \<Rightarrow> 'a option" where
  "elemAt xs i = (if 0 \<le> i \<and> i < int (length xs) then Some (xs ! nat i) else None)"

section \<open>The draw: \<open>pickAndDecrement\<close>\<close>

text \<open>\<open>blocks.reduce((s, b) => s + b.count, 0)\<close>\<close>

definition totalRemaining :: "block list \<Rightarrow> int" where
  "totalRemaining bs = foldl (\<lambda>s b. s + count b) 0 bs"

text \<open>
  The \<open>for\<close> loop of \<open>pickAndDecrement\<close>, from index \<open>i\<close> with running sum \<open>cum\<close> over
  the blocks not yet visited. The result is \<open>pickedIndex\<close>: the index at the
  \<open>break\<close>, or the initial \<open>-1\<close> when the loop runs to the end.
\<close>

fun walk :: "int \<Rightarrow> int \<Rightarrow> nat \<Rightarrow> block list \<Rightarrow> int" where
  "walk r cum i [] = - 1"
| "walk r cum i (b # bs) =
     (if r < cum + count b then int i else walk r (cum + count b) (Suc i) bs)"

definition pickedIndex :: "int \<Rightarrow> block list \<Rightarrow> int" where
  "pickedIndex r bs =
     (let i = walk r 0 0 bs in if i = - 1 then int (length bs) - 1 else i)"

text \<open>
  \<open>prev.map((b, i) => i === pickedIndex ? {...b, count: Math.max(0, b.count - 1)} : b)\<close>,
  on integer counts, where \<open>b.count - 1\<close> is exact up to the magnitude \<open>2^53\<close>.
\<close>

definition decrementAt :: "int \<Rightarrow> block list \<Rightarrow> block list" where
  "decrementAt k prev =
     map (\<lambda>(i, b). if int i = k then b\<lparr>count := max 0 (count b - 1)\<rparr> else b)
       (enumerate 0 prev)"

text \<open>
  \<open>pickAndDecrement\<close>. The argument \<open>r\<close> is the value of
  \<open>Math.floor(Math.random() * total)\<close>, an input of the model (an integer of
  \<open>[0, total)\<close>; its distribution is not modelled). \<open>blocks\<close> is the array the
  enclosing render captured, from which the pick is computed; \<open>prev\<close> is the state the
  updater passed to \<open>setBlocks\<close> receives, of which the second component of the
  result is the new value. The first component is the returned block, \<open>None\<close> for
  the \<open>return;\<close> of an empty pool.
\<close>

definition pickAndDecrement :: "int \<Rightarrow> block list \<Rightarrow> block list \<Rightarrow> block option \<times> block list" where
  "pickAndDecrement r blocks prev =
     (let total = totalRemaining blocks in
      if total \<le> 0 then (None, prev)
      else (let k = pickedIndex r blocks in (elemAt blocks k, decrementAt k prev)))"

text \<open>The running sum \<open>cum\<close> after the loop has visited the indices \<open>0..i\<close>.\<close>

definition cumAt :: "block list \<Rightarrow> nat \<Rightarrow> int" where
  "cumAt bs i = sum_list (map count (take (Suc i) bs))"

section \<open>The persisted configuration\<close>

text \<open>
  What \<open>JSON.parse\<close> returns. Numbers are integers, as above.
\<close>

datatype json =
  JNull
| JBool bool
| JNum int
| JStr string
| JArr "json list"
| JObj "(string \<times> json) list"

datatype js_error = TypeError | SyntaxError | DOMException

text \<open>
  The single item of \<open>localStorage\<close> under \<open>STORAGE_KEY\<close>: no item (\<open>getItem\<close>
  returns \<open>null\<close>), the empty string, a text that \<open>JSON.parse\<close> rejects, or a
  text that parses to a value. \<open>canRead\<close> and \<open>canWrite\<close> say whether \<open>getItem\<close> and
  \<open>setItem\<close> return or throw (storage disabled, quota exceeded).
\<close>

datatype item = NoItem | EmptyText | Malformed | Doc json

record storage =
  canRead :: bool
  canWrite :: bool
  content :: item

definition getItem :: "storage \<Rightarrow> js_error + item" where
  "getItem st = (if canRead st then Inr (content st) else Inl DOMException)"

definition setItem :: "storage \<Rightarrow> json \<Rightarrow> js_error + storage" where
  "setItem st v = (if canWrite st then Inr (st\<lparr>content := Doc v\<rparr>) else Inl DOMException)"

text \<open>
  \<open>p.id\<close> and \<open>found.initial\<close>: reading a property of \<open>null\<close> throws a
  \<open>TypeError\<close>; an object has the value of its last member of that name; numbers,
  booleans, strings and arrays have neither an \<open>id\<close> nor an \<open>initial\<close> property
  (the two names this function is used with), which reads as \<open>undefined\<close>, here
  \<open>None\<close>.
\<close>

fun getProp :: "json \<Rightarrow> string \<Rightarrow> js_error + json option" where
  "getProp JNull k = Inl TypeError"
| "getProp (JObj fs) k = Inr (map_of (rev fs) k)"
| "getProp v k = Inr None"

text \<open>
  \<open>Number(v)\<close>, with \<open>None\<close> for \<open>NaN\<close>. What the runtime makes of a string, an
  array or an object (its \<open>StringToNumber\<close> and \<open>ToPrimitive\<close>) is the parameter
  \<open>coerce\<close>.
\<close>

fun Number_js :: "(json \<Rightarrow> int option) \<Rightarrow> json option \<Rightarrow> int option" where
  "Number_js coerce None = None"
| "Number_js coerce (Some JNull) = Some 0"
| "Number_js coerce (Some (JBool b)) = Some (if b then 1 else 0)"
| "Number_js coerce (Some (JNum n)) = Some n"
| "Number_js coerce (Some v) = coerce v"

text \<open>\<open>x || d\<close> for a number \<open>x\<close>: \<open>NaN\<close> and \<open>0\<close> are falsy.\<close>

definition orElse :: "int option \<Rightarrow> int \<Rightarrow> int" where
  "orElse x d = (case x of None \<Rightarrow> d | Some n \<Rightarrow> if n = 0 then d else n)"

text \<open>\<open>parsed.find((p) => p.id === d.id)\<close>, which throws at a \<open>null\<close> entry it reaches.\<close>

fun find_id :: "string \<Rightarrow> json list \<Rightarrow> js_error + json option" where
  "find_id i [] = Inr None"
| "find_id i (p # ps) =
     (case getProp p ''id'' of
        Inl e \<Rightarrow> Inl e
      | Inr v \<Rightarrow> if v = Some (JStr i) then Inr (Some p) else find_id i ps)"

text \<open>
  \<open>found ? { ...d, initial: Number(found.initial) || d.initial } : d\<close>; an entry
  that was found has an \<open>id\<close>, so it is an object, and truthy.
\<close>

definition mergeOne :: "(json \<Rightarrow> int option) \<Rightarrow> json list \<Rightarrow> config \<Rightarrow> js_error + config" where
  "mergeOne coerce parsed d =
     (case find_id (id' d) parsed of
        Inl e \<Rightarrow> Inl e
      | Inr None \<Rightarrow> Inr d
      | Inr (Some found) \<Rightarrow>
          (case getProp found ''initial'' of
             Inl e \<Rightarrow> Inl e
           | Inr v \<Rightarrow> Inr (d\<lparr>initial := orElse (Number_js coerce v) (initial d)\<rparr>)))"

text \<open>The \<open>map\<close> over the built-in list, which stops at the first exception.\<close>

fun mergeAll :: "(json \<Rightarrow> int option) \<Rightarrow> json list \<Rightarrow> config list \<Rightarrow> js_error + config list" where
  "mergeAll coerce parsed [] = Inr []"
| "mergeAll coerce parsed (d # ds) =
     (case mergeOne coerce parsed d of
        Inl e \<Rightarrow> Inl e
      | Inr x \<Rightarrow> (case mergeAll coerce parsed ds of Inl e \<Rightarrow> Inl e | Inr xs \<Rightarrow> Inr (x # xs)))"

text \<open>
  \<open>loadSavedConfig\<close>, with the built-in list as a parameter; every exception inside
  the \<open>try\<close> ends in \<open>return DEFAULT_INITIAL\<close>.
\<close>

definition loadSavedConfigFrom :: "config list \<Rightarrow> (json \<Rightarrow> int option) \<Rightarrow> storage \<Rightarrow> config list" where
  "loadSavedConfigFrom builtin coerce st =
     (case getItem st of
        Inl e \<Rightarrow> builtin
      | Inr NoItem \<Rightarrow> builtin
      | Inr EmptyText \<Rightarrow> builtin
      | Inr Malformed \<Rightarrow> builtin
      | Inr (Doc (JArr parsed)) \<Rightarrow>
          (case mergeAll coerce parsed builtin of Inl e \<Rightarrow> builtin | Inr merged \<Rightarrow> merged)
      | Inr (Doc v) \<Rightarrow> builtin)"

definition loadSavedConfig :: "(json \<Rightarrow> int option) \<Rightarrow> storage \<Rightarrow> config list" where
  "loadSavedConfig coerce st = loadSavedConfigFrom DEFAULT_INITIAL coerce st"

text \<open>
  \<open>JSON.stringify(config)\<close> for \<open>config: { id: string; initial: number }[]\<close>, as the
  value the stored text parses back to.
\<close>

definition stringify :: "(string \<times> int) list \<Rightarrow> json" where
  "stringify cfg = JArr (map (\<lambda>(i, n). JObj [(''id'', JStr i), (''initial'', JNum n)]) cfg)"

text \<open>
  \<open>saveConfig\<close>: the exception of \<open>localStorage.setItem\<close> is not caught, so it is
  the result; otherwise the new storage and the argument of \<open>setSavedConfig\<close>.
\<close>

definition saveConfig :: "storage \<Rightarrow> (string \<times> int) list \<Rightarrow> js_error + storage \<times> config list" where
  "saveConfig st cfg =
     (case setItem st (stringify cfg) of
        Inl e \<Rightarrow> Inl e
      | Inr st' \<Rightarrow>
          Inr (st',
               map (\<lambda>d. case find (\<lambda>c. fst c = id' d) cfg of
                           None \<Rightarrow> d
                         | Some found \<Rightarrow> d\<lparr>initial := orElse (Some (snd found)) (initial d)\<rparr>)
                 DEFAULT_INITIAL))"

section \<open>The component \<open>Home\<close>: state, animation and handlers\<close>

text \<open>
  The local variables of one call of \<open>animateSelection\<close>, which its inner function
  \<open>animate\<close> closes over: \<open>startTime\<close>, \<open>duration\<close>, \<open>availableBlocks\<close> and
  \<open>frameIndex\<close>, and \<open>captured\<close>, the \<open>blocks\<close> of the render in which the call was made
  (what \<open>pickAndDecrement\<close> reads when the animation ends).
\<close>

record anim =
  startTime :: int
  duration :: int
  availableBlocks :: "block list"
  frameIndex :: nat
  captured :: "block list"

text \<open>
  The state of \<open>Home\<close>: its five \<open>useState\<close> cells, the storage of the browser, and
  \<open>scheduled\<close>, the callback registered with \<open>requestAnimationFrame\<close>, if any.
  \<open>null\<close> and \<open>undefined\<close> in \<open>selected\<close> are both \<open>None\<close>.
\<close>

record app =
  blocks :: "block list"
  savedConfig :: "config list"
  selected :: "block option"
  hasStarted :: bool
  isAnimating :: bool
  store :: storage
  scheduled :: "anim option"

definition initialApp :: "storage \<Rightarrow> app" where
  "initialApp st =
     \<lparr>blocks = map toBlock DEFAULT_INITIAL, savedConfig = DEFAULT_INITIAL, selected = None,
      hasStarted = False, isAnimating = False, store = st, scheduled = None\<rparr>"

text \<open>
  \<open>const finalPick = pickAndDecrement(); if (finalPick) setSelected(finalPick);\<close>
  as it stands in \<open>handleMulai\<close>, in the fast path of \<open>animateSelection\<close> and at the end
  of \<open>animate\<close>; \<open>bs\<close> is the \<open>blocks\<close> that call of \<open>pickAndDecrement\<close> closes over.
\<close>

definition pickAndSelect :: "int \<Rightarrow> block list \<Rightarrow> app \<Rightarrow> app" where
  "pickAndSelect r bs s =
     (case pickAndDecrement r bs (blocks s) of
        (finalPick, prev') \<Rightarrow>
          s\<lparr>blocks := prev',
            selected := (case finalPick of None \<Rightarrow> selected s | Some p \<Rightarrow> Some p)\<rparr>)"

definition getSingleRemainingBlock :: "block list \<Rightarrow> block option" where
  "getSingleRemainingBlock bs =
     (let avail = filter (\<lambda>b. 0 < count b) bs
      in if length avail = 1 then elemAt avail 0 else None)"

definition easeOut :: "rat \<Rightarrow> rat" where
  "easeOut t = 1 - (1 - t)\<^sup>2"

text \<open>
  One call of \<open>animate\<close>, with \<open>now\<close> the value of \<open>Date.now()\<close> and \<open>r\<close> the random
  integer its \<open>pickAndDecrement\<close> would draw. The displayed index is computed in exact
  rational arithmetic where the source computes in floating point; \<open>duration\<close> is
  positive in every call the program makes (it is 2000).
\<close>

definition animate :: "int \<Rightarrow> int \<Rightarrow> anim \<Rightarrow> app \<Rightarrow> app" where
  "animate now r a s =
     (let elapsed = now - startTime a;
          progress = min 1 (of_int elapsed / of_int (duration a) :: rat);
          frameIndex' = Suc (frameIndex a);
          n = int (length (availableBlocks a));
          index = (if progress < 7 / 10 then int frameIndex' mod n
                   else \<lfloor>easeOut ((progress - 7 / 10) / (3 / 10)) * of_int (n - 1)\<rfloor>);
          s1 = s\<lparr>selected := elemAt (availableBlocks a) index\<rparr>
      in if progress < 1 then s1\<lparr>scheduled := Some (a\<lparr>frameIndex := frameIndex'\<rparr>)\<rparr>
         else (pickAndSelect r (captured a) s1)\<lparr>isAnimating := False, scheduled := None\<rparr>)"

text \<open>
  \<open>animateSelection(duration)\<close>; \<open>start\<close> is the \<open>Date.now()\<close> of its first line and
  \<open>now\<close> that of the call of \<open>animate\<close> in its last line.
\<close>

definition animateSelection :: "int \<Rightarrow> int \<Rightarrow> int \<Rightarrow> int \<Rightarrow> app \<Rightarrow> app" where
  "animateSelection dur start now r s =
     (let avail = filter (\<lambda>b. 0 < count b) (blocks s) in
      if length avail = 0 then s
      else if length avail = 1 then pickAndSelect r (blocks s) s
      else animate now r
             \<lparr>startTime = start, duration = dur, availableBlocks = avail, frameIndex = 0,
              captured = blocks s\<rparr>
             (s\<lparr>isAnimating := True\<rparr>))"

definition handleMulai :: "int \<Rightarrow> int \<Rightarrow> int \<Rightarrow> app \<Rightarrow> app" where
  "handleMulai start now r s =
     (if isAnimating s \<or> totalRemaining (blocks s) \<le> 0 then s
      else (case getSingleRemainingBlock (blocks s) of
              Some singleBlock \<Rightarrow> pickAndSelect r (blocks s) s
            | None \<Rightarrow> animateSelection 2000 start now r s)\<lparr>hasStarted := True\<rparr>)"

definition handleAcak :: "int \<Rightarrow> int \<Rightarrow> int \<Rightarrow> app \<Rightarrow> app" where
  "handleAcak start now r s =
     (if isAnimating s \<or> totalRemaining (blocks s) \<le> 0 then s
      else animateSelection 2000 start now r s)"

definition handleReset :: "app \<Rightarrow> app" where
  "handleReset s =
     (let base = (if length (savedConfig s) \<noteq> 0 then savedConfig s else DEFAULT_INITIAL)
      in s\<lparr>blocks := map toBlock base, selected := None, hasStarted := False\<rparr>)"

text \<open>The effect that runs on mount.\<close>

definition loadOnMount :: "(json \<Rightarrow> int option) \<Rightarrow> app \<Rightarrow> app" where
  "loadOnMount coerce s =
     (let cfg = loadSavedConfig coerce (store s)
      in s\<lparr>savedConfig := cfg, blocks := map toBlock cfg\<rparr>)"

text \<open>
  The \<open>onSave\<close> callback of \<open>BlocksList\<close>, a user's edit of one starting count. The
  exception of \<open>saveConfig\<close> leaves the handler before any state is set.
\<close>

definition onSave :: "string \<Rightarrow> int \<Rightarrow> app \<Rightarrow> js_error + app" where
  "onSave i newInitial s =
     (let updatedSaved = map (\<lambda>c. if id' c = i then c\<lparr>initial := newInitial\<rparr> else c) (savedConfig s)
      in case saveConfig (store s) (map (\<lambda>c. (id' c, initial c)) updatedSaved) of
           Inl e \<Rightarrow> Inl e
         | Inr (st', merged) \<Rightarrow>
             Inr (s\<lparr>store := st', savedConfig := updatedSaved,
                    blocks := map (\<lambda>p. if id' p = i then p\<lparr>count := newInitial, initial := newInitial\<rparr> else p)
                                (blocks s)\<rparr>))"

text \<open>
  What the browser can make the component do: a click on a button, an edit, the mount,
  a display-refresh callback. An edit whose handler throws leaves the state as it was.
\<close>

datatype event =
  Mulai int int int
| Acak int int int
| Reset
| Edit string int
| Mount
| Frame int int

fun step :: "(json \<Rightarrow> int option) \<Rightarrow> event \<Rightarrow> app \<Rightarrow> app" where
  "step coerce (Mulai start now r) s = handleMulai start now r s"
| "step coerce (Acak start now r) s = handleAcak start now r s"
| "step coerce Reset s = handleReset s"
| "step coerce (Edit i n) s = (case onSave i n s of Inl e \<Rightarrow> s | Inr s' \<Rightarrow> s')"
| "step coerce Mount s = loadOnMount coerce s"
| "step coerce (Frame now r) s =
     (case scheduled s of None \<Rightarrow> s | Some a \<Rightarrow> animate now r a s)"

text \<open>The display-refresh callbacks \<open>(now, r)\<close> that follow one another.\<close>

fun frames :: "(int \<times> int) list \<Rightarrow> app \<Rightarrow> app" where
  "frames [] s = s"
| "frames ((now, r) # ts) s = frames ts (step (\<lambda>v. None) (Frame now r) s)"

text \<open>
  One reveal cycle on the general path: \<open>animateSelection\<close>, whose last line makes the
  first call of \<open>animate\<close>, then the callbacks.
\<close>

fun reveal :: "int \<Rightarrow> int \<Rightarrow> (int \<times> int) list \<Rightarrow> app \<Rightarrow> app" where
  "reveal dur start [] s = s"
| "reveal dur start ((now, r) # ts) s = frames ts (animateSelection dur start now r s)"

section \<open>Predicates of the properties\<close>

text \<open>The invariant of the data model: \<open>0 \<le> remainingCount \<le> startingCount\<close>.\<close>

definition countsInRange :: "block list \<Rightarrow> bool" where
  "countsInRange bs = list_all (\<lambda>b. 0 \<le> count b \<and> count b \<le> initial b) bs"

definition nonNegative :: "config list \<Rightarrow> bool" where
  "nonNegative cs = list_all (\<lambda>c. 0 \<le> initial c) cs"



section \<open>Concrete inputs\<close>

text \<open>
  A pool \<open>{A: 2, B: 0, C: 3}\<close>, the two categories of the pool \<open>{A: 0, B: 1}\<close>, and the
  category \<open>A\<close> after an edit of its starting count to \<open>-1\<close>.
\<close>

definition poolABC :: "block list" where
  "poolABC =
     [\<lparr>id' = ''A'', name = ''A'', src = ''/a.svg'', initial = 2, count = 2\<rparr>,
      \<lparr>id' = ''B'', name = ''B'', src = ''/b.svg'', initial = 3, count = 0\<rparr>,
      \<lparr>id' = ''C'', name = ''C'', src = ''/c.svg'', initial = 3, count = 3\<rparr>]"




text \<open>
  A storage that works and holds nothing, one whose writes fail, and one that holds
  a given value.
\<close>

definition okStorage :: storage where
  "okStorage = \<lparr>canRead = True, canWrite = True, content = NoItem\<rparr>"

definition fullStorage :: storage where
  "fullStorage = \<lparr>canRead = True, canWrite = False, content = NoItem\<rparr>"

definition storageWith :: "json \<Rightarrow> storage" where
  "storageWith v = \<lparr>canRead = True, canWrite = True, content = Doc v\<rparr>"

definition appWith :: "block list \<Rightarrow> app" where
  "appWith bs = (initialApp okStorage)\<lparr>blocks := bs\<rparr>"

text \<open>
  The built-in list \<open>{red: 6, blue: 6}\<close> and the persisted records
  \<open>[{id: "red", initial: 3}, {id: "stale", initial: 99}]\<close>,
  \<open>[{id: "red", initial: -3}]\<close> and \<open>[{id: "red", initial: 0}]\<close>.
\<close>

definition builtinRB :: "config list" where
  "builtinRB =
     [\<lparr>id' = ''red'', name = ''Merah'', src = ''/red.svg'', initial = 6\<rparr>,
      \<lparr>id' = ''blue'', name = ''Biru'', src = ''/blue.svg'', initial = 6\<rparr>]"

definition persistedExample :: "json list" where
  "persistedExample =
     [JObj [(''id'', JStr ''red''), (''initial'', JNum 3)],
      JObj [(''id'', JStr ''stale''), (''initial'', JNum 99)]]"

definition persistedNegative :: "json list" where
  "persistedNegative = [JObj [(''id'', JStr ''red''), (''initial'', JNum (- 3))]]"

definition persistedZero :: "json list" where
  "persistedZero = [JObj [(''id'', JStr ''red''), (''initial'', JNum 0)]]"

section \<open>The cumulative walk\<close>

lemma totalRemaining_sum: "totalRemaining bs = sum_list (map count bs)"
proof -
  have "foldl (\<lambda>s b. s + count b) a bs = a + sum_list (map count bs)" for a
    by (induction bs arbitrary: a) auto
  then show ?thesis by (simp add: totalRemaining_def)
qed

lemma totalRemaining_nonempty: "0 < totalRemaining bs \<Longrightarrow> bs \<noteq> []"
  by (auto simp: totalRemaining_def)

lemma cumAt_0: "0 < length bs \<Longrightarrow> cumAt bs 0 = count (bs ! 0)"
  by (cases bs) (simp_all add: cumAt_def)

lemma cumAt_Suc: "Suc k < length bs \<Longrightarrow> cumAt bs (Suc k) = cumAt bs k + count (bs ! Suc k)"
  by (simp add: cumAt_def take_Suc_conv_app_nth[of "Suc k"])

lemma cumAt_last: "bs \<noteq> [] \<Longrightarrow> cumAt bs (length bs - 1) = totalRemaining bs"
  by (simp add: cumAt_def totalRemaining_sum)

text \<open>
  The loop either runs to the end, every running sum being at most \<open>r\<close>, or breaks
  at the first index whose running sum exceeds \<open>r\<close>.
\<close>

lemma walk_cases:
  "(walk r cum i bs = - 1 \<and> (\<forall>j < length bs. cum + cumAt bs j \<le> r))
   \<or> (\<exists>k < length bs. walk r cum i bs = int (i + k) \<and> r < cum + cumAt bs k
          \<and> (\<forall>j < k. cum + cumAt bs j \<le> r))"
proof (induction bs arbitrary: cum i)
  case Nil
  then show ?case by simp
next
  case (Cons b bs)
  show ?case
  proof (cases "r < cum + count b")
    case True
    then show ?thesis by (auto simp: cumAt_def intro!: exI[of _ 0])
  next
    case False
    from Cons.IH[of "cum + count b" "Suc i"]
    show ?thesis
    proof
      assume a: "walk r (cum + count b) (Suc i) bs = - 1 \<and>
                 (\<forall>j<length bs. cum + count b + cumAt bs j \<le> r)"
      have "\<forall>j<length (b # bs). cum + cumAt (b # bs) j \<le> r"
      proof (intro allI impI)
        fix j assume "j < length (b # bs)"
        then show "cum + cumAt (b # bs) j \<le> r"
          using a False by (cases j) (auto simp: cumAt_def add.assoc)
      qed
      with a False show ?thesis by simp
    next
      assume "\<exists>k<length bs. walk r (cum + count b) (Suc i) bs = int (Suc i + k) \<and>
                r < cum + count b + cumAt bs k \<and> (\<forall>j<k. cum + count b + cumAt bs j \<le> r)"
      then obtain k where k: "k < length bs"
        "walk r (cum + count b) (Suc i) bs = int (Suc i + k)"
        "r < cum + count b + cumAt bs k" "\<forall>j<k. cum + count b + cumAt bs j \<le> r"
        by blast
      have "\<forall>j<Suc k. cum + cumAt (b # bs) j \<le> r"
      proof (intro allI impI)
        fix j assume "j < Suc k"
        then show "cum + cumAt (b # bs) j \<le> r"
          using k(4) False by (cases j) (auto simp: cumAt_def add.assoc)
      qed
      moreover have "r < cum + cumAt (b # bs) (Suc k)"
        using k(3) by (simp add: cumAt_def add.assoc)
      ultimately show ?thesis using k(1,2) False
        by (intro disjI2 exI[of _ "Suc k"]) simp
    qed
  qed
qed

lemma pickedIndex_cases:
  assumes "bs \<noteq> []"
  shows "\<exists>k < length bs. pickedIndex r bs = int k \<and>
           ((walk r 0 0 bs = int k \<and> r < cumAt bs k \<and> (\<forall>j < k. cumAt bs j \<le> r))
            \<or> (walk r 0 0 bs = - 1 \<and> (\<forall>j < length bs. cumAt bs j \<le> r) \<and> k = length bs - 1))"
proof -
  from walk_cases[of r 0 0 bs]
  show ?thesis
  proof
    assume a: "walk r 0 0 bs = - 1 \<and> (\<forall>j<length bs. 0 + cumAt bs j \<le> r)"
    have "length bs - 1 < length bs" using assms by simp
    moreover have "pickedIndex r bs = int (length bs - 1)"
      using a assms by (simp add: pickedIndex_def Suc_leI)
    ultimately show ?thesis using a by auto
  next
    assume "\<exists>k<length bs. walk r 0 0 bs = int (0 + k) \<and> r < 0 + cumAt bs k \<and>
              (\<forall>j<k. 0 + cumAt bs j \<le> r)"
    then obtain k where k: "k < length bs" "walk r 0 0 bs = int k" "r < cumAt bs k"
      "\<forall>j<k. cumAt bs j \<le> r" by auto
    then have "pickedIndex r bs = int k" by (simp add: pickedIndex_def)
    with k show ?thesis by auto
  qed
qed

text \<open>With \<open>r\<close> in \<open>[0, totalRemaining)\<close> the loop breaks, at a block that has a count left.\<close>

lemma walk_finds:
  assumes "0 \<le> r" "r < totalRemaining bs"
  shows "\<exists>k < length bs. walk r 0 0 bs = int k \<and> pickedIndex r bs = int k \<and> 0 < count (bs ! k)
           \<and> r < cumAt bs k \<and> (\<forall>j < k. cumAt bs j \<le> r)"
proof -
  have ne: "bs \<noteq> []" using assms by (intro totalRemaining_nonempty) simp
  from pickedIndex_cases[OF ne, of r] obtain k where k: "k < length bs" "pickedIndex r bs = int k"
    and c: "(walk r 0 0 bs = int k \<and> r < cumAt bs k \<and> (\<forall>j < k. cumAt bs j \<le> r))
            \<or> (walk r 0 0 bs = - 1 \<and> (\<forall>j < length bs. cumAt bs j \<le> r) \<and> k = length bs - 1)"
    by blast
  from c show ?thesis
  proof
    assume a: "walk r 0 0 bs = int k \<and> r < cumAt bs k \<and> (\<forall>j < k. cumAt bs j \<le> r)"
    have "0 < count (bs ! k)"
    proof (cases k)
      case 0
      then show ?thesis using a k(1) assms(1) by (simp add: cumAt_0)
    next
      case (Suc m)
      then have lo: "cumAt bs m \<le> r" using a by simp
      have hi: "r < cumAt bs (Suc m)" using a Suc by simp
      have "cumAt bs (Suc m) = cumAt bs m + count (bs ! Suc m)"
        using k(1) Suc by (simp add: cumAt_Suc)
      with lo hi show ?thesis unfolding Suc by linarith
    qed
    with a k show ?thesis by blast
  next
    assume a: "walk r 0 0 bs = - 1 \<and> (\<forall>j < length bs. cumAt bs j \<le> r) \<and> k = length bs - 1"
    then have "cumAt bs (length bs - 1) \<le> r" using ne by simp
    then have False using assms(2) cumAt_last[OF ne] by linarith
    then show ?thesis ..
  qed
qed

section \<open>The decrement\<close>

lemma elemAt_nat: "k < length xs \<Longrightarrow> elemAt xs (int k) = Some (xs ! k)"
  by (simp add: elemAt_def)

lemma length_decrementAt: "length (decrementAt k prev) = length prev"
  by (simp add: decrementAt_def)

lemma nth_decrementAt:
  "i < length prev \<Longrightarrow>
   decrementAt k prev ! i =
     (if int i = k then (prev ! i)\<lparr>count := max 0 (count (prev ! i) - 1)\<rparr> else prev ! i)"
  by (simp add: decrementAt_def nth_enumerate_eq)

lemma decrementAt_update:
  "k < length prev \<Longrightarrow>
   decrementAt (int k) prev = prev[k := (prev ! k)\<lparr>count := max 0 (count (prev ! k) - 1)\<rparr>]"
  by (rule nth_equalityI) (auto simp: length_decrementAt nth_decrementAt nth_list_update)


lemma draw_effect:
  assumes "0 \<le> r" "r < totalRemaining bs"
  shows "\<exists>k < length bs. 0 < count (bs ! k) \<and>
           pickAndDecrement r bs bs =
             (Some (bs ! k), bs[k := (bs ! k)\<lparr>count := count (bs ! k) - 1\<rparr>])"
proof -
  from walk_finds[OF assms] obtain k where k: "k < length bs" "pickedIndex r bs = int k"
    "0 < count (bs ! k)" by blast
  have "max 0 (count (bs ! k) - 1) = count (bs ! k) - 1" using k(3) by simp
  then have "decrementAt (int k) bs = bs[k := (bs ! k)\<lparr>count := count (bs ! k) - 1\<rparr>]"
    using k(1) by (simp add: decrementAt_update)
  moreover have "0 < totalRemaining bs" using assms by simp
  ultimately have "pickAndDecrement r bs bs =
      (Some (bs ! k), bs[k := (bs ! k)\<lparr>count := count (bs ! k) - 1\<rparr>])"
    using k(1,2) by (simp add: pickAndDecrement_def elemAt_nat)
  with k(1,3) show ?thesis by blast
qed

lemma sum_list_count_update:
  "k < length bs \<Longrightarrow>
   sum_list (map count (bs[k := (bs ! k)\<lparr>count := c\<rparr>])) = sum_list (map count bs) - count (bs ! k) + c"
proof (induction bs arbitrary: k)
  case Nil
  then show ?case by simp
next
  case (Cons b bs)
  then show ?case by (cases k) auto
qed

lemma draw_total:
  assumes "0 \<le> r" "r < totalRemaining bs"
  shows "totalRemaining (snd (pickAndDecrement r bs bs)) = totalRemaining bs - 1"
proof -
  from draw_effect[OF assms] obtain k where k: "k < length bs"
    "pickAndDecrement r bs bs = (Some (bs ! k), bs[k := (bs ! k)\<lparr>count := count (bs ! k) - 1\<rparr>])"
    by blast
  show ?thesis using k by (simp add: totalRemaining_sum sum_list_count_update)
qed


section \<open>Claims about the draw\<close>

text \<open>
  C1. For every pool with \<open>totalRemaining > 0\<close>, whatever integer \<open>r\<close> is drawn,
  \<open>pickAndDecrement\<close> returns the block at an index \<open>k\<close> of the pool and decrements at
  that index, where \<open>k\<close> is the first index whose cumulative sum of counts exceeds \<open>r\<close>
  (its sum exceeds \<open>r\<close> and no earlier sum does), or, when no cumulative sum exceeds
  \<open>r\<close>, the last index of the pool. How \<open>r\<close> is distributed is not part of the model.
\<close>

theorem pick_first_exceeding:
  assumes "0 < totalRemaining bs"
  shows "\<exists>k < length bs.
           pickAndDecrement r bs prev = (Some (bs ! k), decrementAt (int k) prev) \<and>
           ((r < cumAt bs k \<and> (\<forall>j < k. cumAt bs j \<le> r))
            \<or> ((\<forall>j < length bs. cumAt bs j \<le> r) \<and> k = length bs - 1))"
proof -
  have ne: "bs \<noteq> []" using assms by (rule totalRemaining_nonempty)
  from pickedIndex_cases[OF ne, of r] obtain k where k: "k < length bs" "pickedIndex r bs = int k"
    and c: "(walk r 0 0 bs = int k \<and> r < cumAt bs k \<and> (\<forall>j < k. cumAt bs j \<le> r))
            \<or> (walk r 0 0 bs = - 1 \<and> (\<forall>j < length bs. cumAt bs j \<le> r) \<and> k = length bs - 1)"
    by blast
  have "pickAndDecrement r bs prev = (Some (bs ! k), decrementAt (int k) prev)"
    using assms k by (simp add: pickAndDecrement_def elemAt_nat)
  with k(1) c show ?thesis by blast
qed

theorem pick_first_exceeding_witness:
  "0 < totalRemaining poolABC \<and>
   pickAndDecrement 2 poolABC poolABC = (Some (poolABC ! 2), decrementAt 2 poolABC) \<and>
   (\<exists>k < length poolABC.
      pickAndDecrement 2 poolABC poolABC = (Some (poolABC ! k), decrementAt (int k) poolABC) \<and>
      ((2 < cumAt poolABC k \<and> (\<forall>j < k. cumAt poolABC j \<le> 2))
       \<or> ((\<forall>j < length poolABC. cumAt poolABC j \<le> 2) \<and> k = length poolABC - 1)))"
proof -
  have h: "0 < totalRemaining poolABC" by code_simp
  have e: "pickAndDecrement 2 poolABC poolABC = (Some (poolABC ! 2), decrementAt 2 poolABC)"
    by code_simp
  from h e pick_first_exceeding[OF h, of 2 poolABC] show ?thesis by blast
qed

text \<open>
  C10. For every pool with \<open>totalRemaining > 0\<close> and every \<open>r\<close> in
  \<open>[0, totalRemaining)\<close>, the loop breaks at an index \<open>k\<close> inside the pool (its result
  is \<open>k\<close>, not the initial \<open>-1\<close>, so the fallback assignment does not run), the block
  returned is the one at \<open>k\<close>, and that block has \<open>count > 0\<close>.
\<close>

theorem walk_hits_positive:
  assumes "0 < totalRemaining bs" "0 \<le> r" "r < totalRemaining bs"
  shows "walk r 0 0 bs \<noteq> - 1 \<and>
         (\<exists>k < length bs. walk r 0 0 bs = int k \<and> pickedIndex r bs = int k
            \<and> fst (pickAndDecrement r bs prev) = Some (bs ! k) \<and> 0 < count (bs ! k))"
proof -
  from walk_finds[OF assms(2,3)] obtain k where k: "k < length bs" "walk r 0 0 bs = int k"
    "pickedIndex r bs = int k" "0 < count (bs ! k)" by blast
  have "fst (pickAndDecrement r bs prev) = Some (bs ! k)"
    using assms(1) k(1,3) by (simp add: pickAndDecrement_def elemAt_nat)
  moreover have "walk r 0 0 bs \<noteq> - 1" using k(2) by simp
  ultimately show ?thesis using k by blast
qed

theorem walk_hits_positive_witness:
  "0 < totalRemaining poolABC \<and> (0::int) \<le> 2 \<and> 2 < totalRemaining poolABC \<and>
   walk 2 0 0 poolABC = 2 \<and> 0 < count (poolABC ! 2) \<and>
   walk 2 0 0 poolABC \<noteq> - 1 \<and>
   (\<exists>k < length poolABC. walk 2 0 0 poolABC = int k \<and> pickedIndex 2 poolABC = int k
       \<and> fst (pickAndDecrement 2 poolABC poolABC) = Some (poolABC ! k) \<and> 0 < count (poolABC ! k))"
proof -
  have a: "0 < totalRemaining poolABC" by code_simp
  have b: "(0::int) \<le> 2" by simp
  have c: "2 < totalRemaining poolABC" by code_simp
  have d: "walk 2 0 0 poolABC = 2" "0 < count (poolABC ! 2)" by code_simp+
  from a b c d walk_hits_positive[OF a b c, of poolABC] show ?thesis by blast
qed

text \<open>
  C5. The claim is that the picked count decreases by exactly 1 on every successful
  draw. The source computes \<open>Math.max(0, b.count - 1)\<close> on the number
  the editor installed as \<open>Number(value) || 0\<close>: at a count of \<open>0.5\<close> a successful draw
  leaves 0, a decrease of \<open>0.5\<close>, and at \<open>2^53 + 2\<close> the double subtraction leaves \<open>2^53\<close>,
  a decrease of 2. Both counts are outside the integers this model describes exactly,
  so no theorem of it stands for the claim.
\<close>



section \<open>The single-category fast path\<close>






section \<open>Edits and the write to storage\<close>

lemma onSave_ok:
  assumes "canWrite (store s)"
  shows "onSave i n s =
    Inr (s\<lparr>store := (store s)\<lparr>content := Doc (stringify (map (\<lambda>c. (id' c, initial c))
              (map (\<lambda>c. if id' c = i then c\<lparr>initial := n\<rparr> else c) (savedConfig s))))\<rparr>,
           savedConfig := map (\<lambda>c. if id' c = i then c\<lparr>initial := n\<rparr> else c) (savedConfig s),
           blocks := map (\<lambda>p. if id' p = i then p\<lparr>count := n, initial := n\<rparr> else p) (blocks s)\<rparr>)"
  using assms by (simp add: onSave_def saveConfig_def setItem_def Let_def)

lemma onSave_fails: "\<not> canWrite (store s) \<Longrightarrow> onSave i n s = Inl DOMException"
  by (simp add: onSave_def saveConfig_def setItem_def Let_def)

text \<open>
  C8. For every category id \<open>i\<close> and new value \<open>n\<close>, an edit whose write to the storage
  succeeds returns normally with, at every index of the pool, the block of id \<open>i\<close>
  having both \<open>count\<close> and \<open>initial\<close> equal to \<open>n\<close> (whatever its count was, so a
  category drawn from is refilled) and every other block unchanged; \<open>savedConfig\<close> is
  changed in the same way, and \<open>selected\<close>, \<open>hasStarted\<close>, \<open>isAnimating\<close> and the
  registered callback are as before. What the edit does when the write fails is the
  subject of C3.
\<close>

theorem edit_sets_both_counts:
  assumes "canWrite (store s)"
  shows "\<exists>s'. onSave i n s = Inr s' \<and>
           length (blocks s') = length (blocks s) \<and>
           (\<forall>k < length (blocks s).
              (id' (blocks s ! k) = i \<longrightarrow>
                 blocks s' ! k = (blocks s ! k)\<lparr>count := n, initial := n\<rparr> \<and>
                 count (blocks s' ! k) = n \<and> initial (blocks s' ! k) = n) \<and>
              (id' (blocks s ! k) \<noteq> i \<longrightarrow> blocks s' ! k = blocks s ! k)) \<and>
           length (savedConfig s') = length (savedConfig s) \<and>
           (\<forall>k < length (savedConfig s).
              (id' (savedConfig s ! k) = i \<longrightarrow>
                 savedConfig s' ! k = (savedConfig s ! k)\<lparr>initial := n\<rparr>) \<and>
              (id' (savedConfig s ! k) \<noteq> i \<longrightarrow> savedConfig s' ! k = savedConfig s ! k)) \<and>
           selected s' = selected s \<and> hasStarted s' = hasStarted s \<and>
           isAnimating s' = isAnimating s \<and> scheduled s' = scheduled s"
  unfolding onSave_ok[OF assms] by simp

theorem edit_sets_both_counts_witness:
  "canWrite (store (initialApp okStorage)) \<and>
   (\<exists>s'. onSave ''blue'' 3 (initialApp okStorage) = Inr s' \<and>
      map count (blocks s') = [6, 3, 6, 6, 6, 6, 6, 6] \<and>
      map initial (blocks s') = [6, 3, 6, 6, 6, 6, 6, 6] \<and>
      map initial (savedConfig s') = [6, 3, 6, 6, 6, 6, 6, 6])"
proof -
  have w: "canWrite (store (initialApp okStorage))" by (simp add: initialApp_def okStorage_def)
  from edit_sets_both_counts[OF w, of "''blue''" 3]
  obtain s' where s': "onSave ''blue'' 3 (initialApp okStorage) = Inr s'"
    by blast
  have e: "onSave ''blue'' 3 (initialApp okStorage) = Inr s' \<Longrightarrow>
      map count (blocks s') = [6, 3, 6, 6, 6, 6, 6, 6] \<and>
      map initial (blocks s') = [6, 3, 6, 6, 6, 6, 6, 6] \<and>
      map initial (savedConfig s') = [6, 3, 6, 6, 6, 6, 6, 6]"
    unfolding onSave_ok[OF w] by (auto simp: initialApp_def DEFAULT_INITIAL_def toBlock_def)
  show ?thesis using w s' e[OF s'] by simp
qed

text \<open>
  C3. The claim is that saving never raises to its caller when the write fails. In the
  source \<open>saveConfig\<close> calls \<open>localStorage.setItem\<close> outside any \<open>try\<close>, unlike
  \<open>loadSavedConfig\<close>, which wraps \<open>localStorage.getItem\<close> in one and still returns the
  built-in list when the storage cannot be read. With a storage whose writes fail,
  \<open>saveConfig\<close> ends in the exception, and so does the edit handler that calls it,
  before it has set any state.
\<close>

theorem save_raises_when_write_fails:
  "saveConfig fullStorage [(''red'', 3)] = Inl DOMException \<and>
   onSave ''red'' 3 (initialApp fullStorage) = Inl DOMException \<and>
   loadSavedConfig (\<lambda>v. None) \<lparr>canRead = False, canWrite = False, content = NoItem\<rparr>
     = DEFAULT_INITIAL"
  by (simp add: saveConfig_def setItem_def fullStorage_def onSave_def initialApp_def
      loadSavedConfig_def loadSavedConfigFrom_def getItem_def)

section \<open>The range of the counts\<close>

lemma countsInRange_decrementAt: "countsInRange prev \<Longrightarrow> countsInRange (decrementAt k prev)"
  unfolding countsInRange_def list_all_length length_decrementAt
  by (auto simp: nth_decrementAt)

lemma countsInRange_pick: "countsInRange prev \<Longrightarrow> countsInRange (snd (pickAndDecrement r bs prev))"
  by (simp add: pickAndDecrement_def Let_def countsInRange_decrementAt)

lemma blocks_pickAndSelect: "blocks (pickAndSelect r bs s) = snd (pickAndDecrement r bs (blocks s))"
  by (simp add: pickAndSelect_def split: prod.split)

lemma savedConfig_pickAndSelect: "savedConfig (pickAndSelect r bs s) = savedConfig s"
  by (simp add: pickAndSelect_def split: prod.split)

lemma blocks_animate:
  "blocks (animate now r a s) = blocks s \<or> blocks (animate now r a s) = snd (pickAndDecrement r (captured a) (blocks s))"
  by (simp add: animate_def Let_def blocks_pickAndSelect)

lemma savedConfig_animate: "savedConfig (animate now r a s) = savedConfig s"
  by (simp add: animate_def Let_def savedConfig_pickAndSelect)

lemma blocks_animateSelection:
  "blocks (animateSelection dur start now r s) = blocks s \<or>
   (\<exists>bs. blocks (animateSelection dur start now r s) = snd (pickAndDecrement r bs (blocks s)))"
  using blocks_animate[of now r _ "s\<lparr>isAnimating := True\<rparr>"]
  by (auto simp: animateSelection_def Let_def blocks_pickAndSelect)

lemma savedConfig_animateSelection: "savedConfig (animateSelection dur start now r s) = savedConfig s"
  by (simp add: animateSelection_def Let_def savedConfig_pickAndSelect savedConfig_animate)

lemma countsInRange_toBlock: "nonNegative cs \<Longrightarrow> countsInRange (map toBlock cs)"
  by (simp add: countsInRange_def nonNegative_def toBlock_def list_all_iff)

lemma nonNegative_DEFAULT: "nonNegative DEFAULT_INITIAL"
  by (simp add: nonNegative_def DEFAULT_INITIAL_def)

text \<open>
  Where the range of the counts is kept: if the counts are in range and the saved
  starting counts are non-negative, then so they are after every event (a click on
  Mulai or Acak, a reset, an edit, the load on mount, an animation callback) that
  installs no negative number. The range can be lost only where an edit or the
  load installs one.
\<close>

lemma counts_in_range_preserved:
  assumes inv: "countsInRange (blocks s)" "nonNegative (savedConfig s)"
    and ok: "case e of Edit i n \<Rightarrow> 0 \<le> n
                     | Mount \<Rightarrow> nonNegative (loadSavedConfig coerce (store s))
                     | _ \<Rightarrow> True"
  shows "countsInRange (blocks (step coerce e s)) \<and> nonNegative (savedConfig (step coerce e s))"
proof (cases e)
  case (Mulai start now r)
  have "countsInRange (blocks (handleMulai start now r s))"
    using inv(1) blocks_animateSelection[of 2000 start now r s]
    by (auto simp: handleMulai_def blocks_pickAndSelect countsInRange_pick split: option.split)
  moreover have "savedConfig (handleMulai start now r s) = savedConfig s"
    by (simp add: handleMulai_def savedConfig_pickAndSelect savedConfig_animateSelection split: option.split)
  ultimately show ?thesis using Mulai inv(2) by simp
next
  case (Acak start now r)
  have "countsInRange (blocks (handleAcak start now r s))"
    using inv(1) blocks_animateSelection[of 2000 start now r s]
    by (auto simp: handleAcak_def countsInRange_pick)
  moreover have "savedConfig (handleAcak start now r s) = savedConfig s"
    by (simp add: handleAcak_def savedConfig_animateSelection)
  ultimately show ?thesis using Acak inv(2) by simp
next
  case Reset
  then show ?thesis using inv(2)
    by (simp add: handleReset_def Let_def countsInRange_toBlock nonNegative_DEFAULT)
next
  case (Edit i n)
  then have n: "0 \<le> n" using ok by simp
  show ?thesis
  proof (cases "canWrite (store s)")
    case True
    show ?thesis using inv n unfolding Edit
      by (auto simp: onSave_ok[OF True] countsInRange_def nonNegative_def list_all_iff)
  next
    case False
    then show ?thesis using inv unfolding Edit by (simp add: onSave_fails)
  qed
next
  case Mount
  then show ?thesis using ok by (simp add: loadOnMount_def Let_def countsInRange_toBlock)
next
  case (Frame now r)
  show ?thesis
  proof (cases "scheduled s")
    case None
    then show ?thesis using inv Frame by simp
  next
    case (Some a)
    then show ?thesis using inv Frame blocks_animate[of now r a s]
      by (auto simp: savedConfig_animate countsInRange_pick)
  qed
qed

text \<open>
  C9. The claim is that \<open>0 \<le> remainingCount \<le> startingCount\<close> holds for every category
  after every operation. The edit handler sets \<open>count\<close> and \<open>initial\<close> to the number it
  is given; the editor's input carries \<open>min={0}\<close> and its value is coerced by
  \<open>Number(value) || 0\<close>, and the draw floors its decrement at 0, but no line looks at
  the sign of the edited value. From the initial state, the edit of \<open>red\<close> to \<open>-5\<close>
  leaves a block with \<open>count = -5\<close>, so the counts are no longer in range.
\<close>

theorem negative_edit_breaks_range:
  "\<not> countsInRange (blocks (step (\<lambda>v. None) (Edit ''red'' (- 5)) (initialApp okStorage))) \<and>
   map count (blocks (step (\<lambda>v. None) (Edit ''red'' (- 5)) (initialApp okStorage)))
     = [- 5, 6, 6, 6, 6, 6, 6, 6]"
  by (simp add: onSave_def saveConfig_def setItem_def Let_def initialApp_def okStorage_def
      countsInRange_def DEFAULT_INITIAL_def toBlock_def)

section \<open>Loading the persisted configuration\<close>

lemma getProp_not_null: "p \<noteq> JNull \<Longrightarrow> \<exists>v. getProp p k = Inr v"
  by (cases p) simp_all

lemma find_id_no_null:
  "JNull \<notin> set ps \<Longrightarrow>
   find_id i ps = Inr (find (\<lambda>p. getProp p ''id'' = Inr (Some (JStr i))) ps)"
proof (induction ps)
  case Nil
  then show ?case by simp
next
  case (Cons p ps)
  then have "p \<noteq> JNull" by auto
  then obtain v where v: "getProp p ''id'' = Inr v" using getProp_not_null by blast
  show ?case using Cons v by auto
qed

lemma mergeOne_no_null:
  assumes "JNull \<notin> set ps"
  shows "\<exists>x. mergeOne coerce ps d = Inr (d\<lparr>initial := x\<rparr>) \<and>
     (case find (\<lambda>p. getProp p ''id'' = Inr (Some (JStr (id' d)))) ps of
        None \<Rightarrow> x = initial d
      | Some found \<Rightarrow> (\<forall>v. getProp found ''initial'' = Inr v \<longrightarrow>
           x = orElse (Number_js coerce v) (initial d)))"
proof (cases "find (\<lambda>p. getProp p ''id'' = Inr (Some (JStr (id' d)))) ps")
  case None
  then show ?thesis using assms by (simp add: mergeOne_def find_id_no_null)
next
  case (Some found)
  then have "found \<in> set ps" by (auto simp: find_Some_iff)
  then have "found \<noteq> JNull" using assms by auto
  then obtain v where v: "getProp found ''initial'' = Inr v" using getProp_not_null by blast
  show ?thesis using Some v assms by (simp add: mergeOne_def find_id_no_null)
qed

lemma mergeAll_no_null:
  assumes "JNull \<notin> set ps"
  shows "\<exists>xs. mergeAll coerce ps ds = Inr xs \<and> length xs = length ds \<and>
           (\<forall>k < length ds. mergeOne coerce ps (ds ! k) = Inr (xs ! k))"
proof (induction ds)
  case Nil
  then show ?case by simp
next
  case (Cons d ds)
  from mergeOne_no_null[OF assms, of coerce d] obtain x where x: "mergeOne coerce ps d = Inr (d\<lparr>initial := x\<rparr>)"
    by blast
  from Cons obtain xs where xs: "mergeAll coerce ps ds = Inr xs" "length xs = length ds"
    "\<forall>k < length ds. mergeOne coerce ps (ds ! k) = Inr (xs ! k)" by blast
  have "\<forall>k < length (d # ds). mergeOne coerce ps ((d # ds) ! k) = Inr ((d\<lparr>initial := x\<rparr> # xs) ! k)"
  proof (intro allI impI)
    fix k assume "k < length (d # ds)"
    then show "mergeOne coerce ps ((d # ds) ! k) = Inr ((d\<lparr>initial := x\<rparr> # xs) ! k)"
      using x xs(3) by (cases k) auto
  qed
  then show ?case using x xs(1,2) by simp
qed

lemma mergeOne_id: "mergeOne coerce ps d = Inr x \<Longrightarrow> id' x = id' d"
  by (auto simp: mergeOne_def split: sum.splits option.splits)

lemma mergeAll_ids: "mergeAll coerce ps ds = Inr xs \<Longrightarrow> map id' xs = map id' ds"
proof (induction ds arbitrary: xs)
  case Nil
  then show ?case by simp
next
  case (Cons d ds)
  then show ?case by (auto split: sum.splits dest: mergeOne_id)
qed

lemma load_ids: "map id' (loadSavedConfigFrom builtin coerce st) = map id' builtin"
  by (auto simp: loadSavedConfigFrom_def split: sum.splits item.splits json.splits dest: mergeAll_ids)

text \<open>
  C2, as the code has it. Whatever the storage holds, the loaded list has the ids of
  the built-in list, in its order (so an id of the record that is not built in is
  dropped). When the storage holds an array without a \<open>null\<close> entry, the entry at each
  index is the built-in one with \<open>initial\<close> replaced by some \<open>x\<close>: the built-in default
  when the array has no entry of that id, or when \<open>Number(initial)\<close> of the first entry
  of that id is \<open>NaN\<close>; that number when it is not zero, a negative number included.
  (The case of zero is left out of this statement.)
\<close>

theorem load_reconciles:
  "map id' (loadSavedConfigFrom builtin coerce st) = map id' builtin \<and>
   (getItem st = Inr (Doc (JArr parsed)) \<and> JNull \<notin> set parsed \<longrightarrow>
     (\<forall>k < length builtin. \<exists>x.
        loadSavedConfigFrom builtin coerce st ! k = (builtin ! k)\<lparr>initial := x\<rparr> \<and>
        (case find (\<lambda>p. getProp p ''id'' = Inr (Some (JStr (id' (builtin ! k))))) parsed of
           None \<Rightarrow> x = initial (builtin ! k)
         | Some found \<Rightarrow>
             (\<forall>v. getProp found ''initial'' = Inr v \<longrightarrow>
                (case Number_js coerce v of
                   None \<Rightarrow> x = initial (builtin ! k)
                 | Some n \<Rightarrow> n \<noteq> 0 \<longrightarrow> x = n)))))"
proof (intro conjI impI allI)
  show "map id' (loadSavedConfigFrom builtin coerce st) = map id' builtin" by (rule load_ids)
next
  fix k
  assume a: "getItem st = Inr (Doc (JArr parsed)) \<and> JNull \<notin> set parsed" and k: "k < length builtin"
  then have nn: "JNull \<notin> set parsed" by simp
  from mergeAll_no_null[OF nn, of coerce builtin] obtain xs where xs: "mergeAll coerce parsed builtin = Inr xs"
    "\<forall>k < length builtin. mergeOne coerce parsed (builtin ! k) = Inr (xs ! k)" by blast
  have load: "loadSavedConfigFrom builtin coerce st = xs" using a xs(1)
    by (simp add: loadSavedConfigFrom_def)
  from mergeOne_no_null[OF nn, of coerce "builtin ! k"] obtain x where
    x: "mergeOne coerce parsed (builtin ! k) = Inr ((builtin ! k)\<lparr>initial := x\<rparr>)"
    and c: "case find (\<lambda>p. getProp p ''id'' = Inr (Some (JStr (id' (builtin ! k))))) parsed of
        None \<Rightarrow> x = initial (builtin ! k)
      | Some found \<Rightarrow> (\<forall>v. getProp found ''initial'' = Inr v \<longrightarrow>
           x = orElse (Number_js coerce v) (initial (builtin ! k)))" by blast
  have "xs ! k = (builtin ! k)\<lparr>initial := x\<rparr>" using x xs(2) k by simp
  moreover have "case find (\<lambda>p. getProp p ''id'' = Inr (Some (JStr (id' (builtin ! k))))) parsed of
           None \<Rightarrow> x = initial (builtin ! k)
         | Some found \<Rightarrow>
             (\<forall>v. getProp found ''initial'' = Inr v \<longrightarrow>
                (case Number_js coerce v of
                   None \<Rightarrow> x = initial (builtin ! k)
                 | Some n \<Rightarrow> n \<noteq> 0 \<longrightarrow> x = n))"
    using c by (auto simp: orElse_def split: option.splits)
  ultimately show "\<exists>x.
        loadSavedConfigFrom builtin coerce st ! k = (builtin ! k)\<lparr>initial := x\<rparr> \<and>
        (case find (\<lambda>p. getProp p ''id'' = Inr (Some (JStr (id' (builtin ! k))))) parsed of
           None \<Rightarrow> x = initial (builtin ! k)
         | Some found \<Rightarrow>
             (\<forall>v. getProp found ''initial'' = Inr v \<longrightarrow>
                (case Number_js coerce v of
                   None \<Rightarrow> x = initial (builtin ! k)
                 | Some n \<Rightarrow> n \<noteq> 0 \<longrightarrow> x = n)))"
    unfolding load by blast
qed

lemma list_of_two: "length xs = 2 \<Longrightarrow> xs = [xs ! 0, xs ! 1]"
proof (cases xs)
  case Nil
  assume "length xs = 2"
  with Nil show ?thesis by simp
next
  case (Cons a ys)
  assume "length xs = 2"
  with Cons show ?thesis by (cases ys) auto
qed

theorem load_reconciles_witness:
  "getItem (storageWith (JArr persistedExample)) = Inr (Doc (JArr persistedExample)) \<and>
   JNull \<notin> set persistedExample \<and>
   loadSavedConfigFrom builtinRB (\<lambda>v. None) (storageWith (JArr persistedExample)) =
     [\<lparr>id' = ''red'', name = ''Merah'', src = ''/red.svg'', initial = 3\<rparr>,
      \<lparr>id' = ''blue'', name = ''Biru'', src = ''/blue.svg'', initial = 6\<rparr>]"
proof -
  let ?st = "storageWith (JArr persistedExample)"
  let ?l = "loadSavedConfigFrom builtinRB (\<lambda>v. None) ?st"
  have g: "getItem ?st = Inr (Doc (JArr persistedExample))"
    by (simp add: getItem_def storageWith_def)
  have nn: "JNull \<notin> set persistedExample" by (simp add: persistedExample_def)
  from load_reconciles[of builtinRB "\<lambda>v. None" ?st persistedExample] g nn
  have ids: "map id' ?l = map id' builtinRB"
    and all: "\<forall>k < length builtinRB. \<exists>x. ?l ! k = (builtinRB ! k)\<lparr>initial := x\<rparr> \<and>
        (case find (\<lambda>p. getProp p ''id'' = Inr (Some (JStr (id' (builtinRB ! k))))) persistedExample of
           None \<Rightarrow> x = initial (builtinRB ! k)
         | Some found \<Rightarrow>
             (\<forall>v. getProp found ''initial'' = Inr v \<longrightarrow>
                (case Number_js (\<lambda>v. None) v of
                   None \<Rightarrow> x = initial (builtinRB ! k)
                 | Some n \<Rightarrow> n \<noteq> 0 \<longrightarrow> x = n)))"
    by blast+
  have len: "length ?l = 2" using arg_cong[OF ids, of length] by (simp add: builtinRB_def)
  have k0: "0 < length builtinRB" and k1: "1 < length builtinRB" by (simp_all add: builtinRB_def)
  from all k0 obtain x where x: "?l ! 0 = (builtinRB ! 0)\<lparr>initial := x\<rparr>"
    "case find (\<lambda>p. getProp p ''id'' = Inr (Some (JStr (id' (builtinRB ! 0))))) persistedExample of
           None \<Rightarrow> x = initial (builtinRB ! 0)
         | Some found \<Rightarrow>
             (\<forall>v. getProp found ''initial'' = Inr v \<longrightarrow>
                (case Number_js (\<lambda>v. None) v of
                   None \<Rightarrow> x = initial (builtinRB ! 0)
                 | Some n \<Rightarrow> n \<noteq> 0 \<longrightarrow> x = n))"
    by blast
  from x(2) have "x = 3" by (simp add: builtinRB_def persistedExample_def)
  with x(1) have r: "?l ! 0 = \<lparr>id' = ''red'', name = ''Merah'', src = ''/red.svg'', initial = 3\<rparr>"
    by (simp add: builtinRB_def)
  from all k1 obtain y where y: "?l ! 1 = (builtinRB ! 1)\<lparr>initial := y\<rparr>"
    "case find (\<lambda>p. getProp p ''id'' = Inr (Some (JStr (id' (builtinRB ! 1))))) persistedExample of
           None \<Rightarrow> y = initial (builtinRB ! 1)
         | Some found \<Rightarrow>
             (\<forall>v. getProp found ''initial'' = Inr v \<longrightarrow>
                (case Number_js (\<lambda>v. None) v of
                   None \<Rightarrow> y = initial (builtinRB ! 1)
                 | Some n \<Rightarrow> n \<noteq> 0 \<longrightarrow> y = n))"
    by blast
  from y(2) have "y = 6" by (simp add: builtinRB_def persistedExample_def)
  with y(1) have b: "?l ! 1 = \<lparr>id' = ''blue'', name = ''Biru'', src = ''/blue.svg'', initial = 6\<rparr>"
    by (simp add: builtinRB_def)
  have "?l = [?l ! 0, ?l ! 1]" using len by (rule list_of_two)
  with r b have "?l = [\<lparr>id' = ''red'', name = ''Merah'', src = ''/red.svg'', initial = 3\<rparr>,
      \<lparr>id' = ''blue'', name = ''Biru'', src = ''/blue.svg'', initial = 6\<rparr>]" by simp
  with g nn show ?thesis by blast
qed

text \<open>
  C2, as stated, fails: the claim gives the built-in default 6 to \<open>red\<close> when the
  record holds \<open>[{id: "red", initial: -3}]\<close>, since \<open>-3\<close> is not a non-negative value;
  the code loads \<open>-3\<close>.
\<close>

theorem load_negative_override_used:
  "map initial (loadSavedConfig (\<lambda>v. None) (storageWith (JArr persistedNegative)))
     = [- 3, 6, 6, 6, 6, 6, 6, 6]"
  by (simp add: loadSavedConfig_def loadSavedConfigFrom_def getItem_def storageWith_def
      persistedNegative_def DEFAULT_INITIAL_def mergeOne_def orElse_def)

text \<open>
  The override 0, which the editor accepts and \<open>saveConfig\<close> writes, is read back
  as the built-in default: \<open>0 || d.initial\<close> is \<open>d.initial\<close>.
\<close>

lemma load_zero_override_lost:
  "map initial (loadSavedConfig (\<lambda>v. None) (storageWith (JArr persistedZero)))
     = [6, 6, 6, 6, 6, 6, 6, 6]"
  by (simp add: loadSavedConfig_def loadSavedConfigFrom_def getItem_def storageWith_def
      persistedZero_def DEFAULT_INITIAL_def mergeOne_def orElse_def)

section \<open>The reveal cycle\<close>

lemma progress_lt_1:
  "0 < d \<Longrightarrow> (min 1 (of_int e / of_int d :: rat) < 1) = (e < d)"
  by (simp add: min_less_iff_disj divide_less_eq)

lemma animate_early:
  assumes "0 < duration a" "now - startTime a < duration a"
  shows "animate now r a s =
           s\<lparr>selected := selected (animate now r a s),
             scheduled := Some (a\<lparr>frameIndex := Suc (frameIndex a)\<rparr>)\<rparr>"
  using assms progress_lt_1[of "duration a" "now - startTime a"]
  by (simp add: animate_def Let_def)

lemma animate_final:
  assumes "0 < duration a" "duration a \<le> now - startTime a"
  shows "blocks (animate now r a s) = snd (pickAndDecrement r (captured a) (blocks s))"
    and "\<not> isAnimating (animate now r a s)"
    and "scheduled (animate now r a s) = None"
    and "fst (pickAndDecrement r (captured a) (blocks s)) \<noteq> None \<Longrightarrow>
           selected (animate now r a s) = fst (pickAndDecrement r (captured a) (blocks s))"
    and "savedConfig (animate now r a s) = savedConfig s"
    and "hasStarted (animate now r a s) = hasStarted s"
    and "store (animate now r a s) = store s"
  using assms progress_lt_1[of "duration a" "now - startTime a"]
  by (auto simp: animate_def Let_def pickAndSelect_def split: prod.splits)

lemma frames_append: "frames (xs @ ys) s = frames ys (frames xs s)"
  by (induction xs arbitrary: s) auto

lemma frames_idle: "scheduled s = None \<Longrightarrow> frames ts s = s"
  by (induction ts) auto

lemma frames_early:
  assumes "scheduled s = Some a" "0 < duration a"
    and "\<forall>(now, r)\<in>set ts. now - startTime a < duration a"
  shows "\<exists>sel a'. frames ts s = s\<lparr>selected := sel, scheduled := Some a'\<rparr> \<and>
           startTime a' = startTime a \<and> duration a' = duration a \<and> captured a' = captured a"
  using assms
proof (induction ts arbitrary: s a)
  case Nil
  have "s = s\<lparr>selected := selected s, scheduled := Some a\<rparr>" using Nil(1) by simp
  then show ?case by (metis frames.simps(1))
next
  case (Cons t ts)
  obtain now r where t: "t = (now, r)" by (cases t)
  have e: "now - startTime a < duration a" using Cons.prems(3) t by simp
  define sel where "sel = selected (animate now r a s)"
  have sel: "animate now r a s = s\<lparr>selected := sel, scheduled := Some (a\<lparr>frameIndex := Suc (frameIndex a)\<rparr>)\<rparr>"
    unfolding sel_def by (rule animate_early[OF Cons.prems(2) e])
  let ?a1 = "a\<lparr>frameIndex := Suc (frameIndex a)\<rparr>"
  let ?s1 = "s\<lparr>selected := sel, scheduled := Some ?a1\<rparr>"
  have "\<exists>sel' a'. frames ts ?s1 = ?s1\<lparr>selected := sel', scheduled := Some a'\<rparr> \<and>
           startTime a' = startTime ?a1 \<and> duration a' = duration ?a1 \<and> captured a' = captured ?a1"
    using Cons.prems(2,3) by (intro Cons.IH) auto
  then obtain sel' a' where f: "frames ts ?s1 = ?s1\<lparr>selected := sel', scheduled := Some a'\<rparr>"
    "startTime a' = startTime a" "duration a' = duration a" "captured a' = captured a" by auto
  have "frames (t # ts) s = s\<lparr>selected := sel', scheduled := Some a'\<rparr>"
    using Cons.prems(1) sel f(1) t by simp
  with f(2,3,4) show ?case by blast
qed


lemma animateSelection_general:
  assumes "2 \<le> length (filter (\<lambda>b. 0 < count b) (blocks s))"
  shows "animateSelection dur start now r s =
           animate now r
             \<lparr>startTime = start, duration = dur,
              availableBlocks = filter (\<lambda>b. 0 < count b) (blocks s), frameIndex = 0,
              captured = blocks s\<rparr>
             (s\<lparr>isAnimating := True\<rparr>)"
proof -
  have "filter (\<lambda>b. 0 < count b) (blocks s) \<noteq> []"
    and "length (filter (\<lambda>b. 0 < count b) (blocks s)) \<noteq> 1"
    using assms by auto
  then show ?thesis by (simp add: animateSelection_def Let_def)
qed

lemma reveal_early:
  assumes general: "2 \<le> length (filter (\<lambda>b. 0 < count b) (blocks s))"
    and dur: "0 < dur"
    and early: "\<forall>(now, r)\<in>set ts. now - start < dur"
    and ne: "ts \<noteq> []"
  shows "\<exists>sel a. reveal dur start ts s = s\<lparr>isAnimating := True, selected := sel, scheduled := Some a\<rparr> \<and>
           startTime a = start \<and> duration a = dur \<and> captured a = blocks s"
proof -
  from ne obtain now r ts' where ts: "ts = (now, r) # ts'" by (cases ts) auto
  let ?a0 = "\<lparr>startTime = start, duration = dur,
              availableBlocks = filter (\<lambda>b. 0 < count b) (blocks s), frameIndex = 0,
              captured = blocks s\<rparr>"
  let ?s0 = "s\<lparr>isAnimating := True\<rparr>"
  let ?a1 = "?a0\<lparr>frameIndex := Suc (frameIndex ?a0)\<rparr>"
  define sel where "sel = selected (animate now r ?a0 ?s0)"
  have e: "now - startTime ?a0 < duration ?a0" using early ts by simp
  have d: "0 < duration ?a0" using dur by simp
  have first: "animateSelection dur start now r s = ?s0\<lparr>selected := sel, scheduled := Some ?a1\<rparr>"
    unfolding animateSelection_general[OF general] sel_def by (rule animate_early[OF d e])
  let ?s1 = "?s0\<lparr>selected := sel, scheduled := Some ?a1\<rparr>"
  have "\<exists>sel' a'. frames ts' ?s1 = ?s1\<lparr>selected := sel', scheduled := Some a'\<rparr> \<and>
           startTime a' = startTime ?a1 \<and> duration a' = duration ?a1 \<and> captured a' = captured ?a1"
    using dur early ts by (intro frames_early) auto
  then obtain sel' a' where f: "frames ts' ?s1 = ?s1\<lparr>selected := sel', scheduled := Some a'\<rparr>"
    "startTime a' = start" "duration a' = dur" "captured a' = blocks s" by auto
  have "reveal dur start ts s = s\<lparr>isAnimating := True, selected := sel', scheduled := Some a'\<rparr>"
    unfolding ts using first f(1) by simp
  with f(2,3,4) show ?thesis by blast
qed

lemma reveal_final:
  assumes general: "2 \<le> length (filter (\<lambda>b. 0 < count b) (blocks s))"
    and dur: "0 < dur"
    and early: "\<forall>(now, r)\<in>set ts. now - start < dur"
    and final: "dur \<le> nowF - start"
  shows "\<exists>a s0. reveal dur start (ts @ [(nowF, rF)]) s = animate nowF rF a s0 \<and>
           blocks s0 = blocks s \<and> captured a = blocks s \<and> startTime a = start \<and> duration a = dur"
proof (cases ts)
  case Nil
  have "reveal dur start ([] @ [(nowF, rF)]) s =
      animate nowF rF
        \<lparr>startTime = start, duration = dur,
         availableBlocks = filter (\<lambda>b. 0 < count b) (blocks s), frameIndex = 0,
         captured = blocks s\<rparr>
        (s\<lparr>isAnimating := True\<rparr>)"
    by (simp add: animateSelection_general[OF general])
  then show ?thesis unfolding Nil by (intro exI conjI) (assumption, simp_all)
next
  case (Cons t ts')
  then have ne: "ts \<noteq> []" by simp
  from reveal_early[OF general dur early ne] obtain sel a where
    r: "reveal dur start ts s = s\<lparr>isAnimating := True, selected := sel, scheduled := Some a\<rparr>"
    and a: "startTime a = start" "duration a = dur" "captured a = blocks s" by blast
  obtain now r where t: "t = (now, r)" by (cases t)
  have "reveal dur start (ts @ [(nowF, rF)]) s = frames [(nowF, rF)] (reveal dur start ts s)"
    unfolding Cons t by (simp add: frames_append)
  also have "\<dots> = animate nowF rF a (s\<lparr>isAnimating := True, selected := sel, scheduled := Some a\<rparr>)"
    unfolding r by simp
  finally show ?thesis using a by (intro exI conjI) (assumption, simp_all)
qed

text \<open>
  C4. In a reveal cycle on the general path (at least two categories have a count
  left; the duration is positive; no other event comes between the callbacks), let the
  calls of \<open>animate\<close> be those at the times of \<open>early\<close>, each before the duration has
  elapsed, and then one at \<open>nowF\<close>, when it has. After any number of the early calls the
  state is the one the cycle started from with \<open>isAnimating\<close> set, some displayed
  candidate in \<open>selected\<close> and the next callback registered: every count is unchanged.
  After the last call, the pool is the result of one \<open>pickAndDecrement\<close> on the pool
  the cycle started from, \<open>isAnimating\<close> is false, no callback is registered (so later
  display refreshes change nothing), \<open>selected\<close> is the block drawn, and with \<open>rF\<close> in
  range \<open>totalRemaining\<close> has gone down by exactly 1.
\<close>

theorem reveal_single_draw_at_end:
  assumes general: "2 \<le> length (filter (\<lambda>b. 0 < count b) (blocks s))"
    and dur: "0 < dur"
    and early: "\<forall>(now, r)\<in>set early. now - start < dur"
    and final: "dur \<le> nowF - start"
  shows "(\<forall>k. 0 < k \<and> k \<le> length early \<longrightarrow>
            (\<exists>sel a. reveal dur start (take k early) s
               = s\<lparr>isAnimating := True, selected := sel, scheduled := Some a\<rparr>) \<and>
            blocks (reveal dur start (take k early) s) = blocks s \<and>
            isAnimating (reveal dur start (take k early) s) \<and>
            scheduled (reveal dur start (take k early) s) \<noteq> None) \<and>
         blocks (reveal dur start (early @ [(nowF, rF)]) s)
           = snd (pickAndDecrement rF (blocks s) (blocks s)) \<and>
         \<not> isAnimating (reveal dur start (early @ [(nowF, rF)]) s) \<and>
         scheduled (reveal dur start (early @ [(nowF, rF)]) s) = None \<and>
         frames later (reveal dur start (early @ [(nowF, rF)]) s)
           = reveal dur start (early @ [(nowF, rF)]) s \<and>
         (0 < totalRemaining (blocks s) \<longrightarrow>
            selected (reveal dur start (early @ [(nowF, rF)]) s)
              = fst (pickAndDecrement rF (blocks s) (blocks s))) \<and>
         (0 \<le> rF \<and> rF < totalRemaining (blocks s) \<longrightarrow>
            totalRemaining (blocks (reveal dur start (early @ [(nowF, rF)]) s))
              = totalRemaining (blocks s) - 1)"
proof -
  let ?end = "reveal dur start (early @ [(nowF, rF)]) s"
  have before: "(\<exists>sel a. reveal dur start (take k early) s
               = s\<lparr>isAnimating := True, selected := sel, scheduled := Some a\<rparr>) \<and>
            blocks (reveal dur start (take k early) s) = blocks s \<and>
            isAnimating (reveal dur start (take k early) s) \<and>
            scheduled (reveal dur start (take k early) s) \<noteq> None"
    if k: "0 < k \<and> k \<le> length early" for k
  proof -
    have ne: "take k early \<noteq> []" using k by auto
    have e: "\<forall>(now, r)\<in>set (take k early). now - start < dur"
      using early by (auto dest: in_set_takeD)
    from reveal_early[OF general dur e ne] show ?thesis by auto
  qed
  from reveal_final[OF general dur early final, of rF] obtain a s0 where
    r: "?end = animate nowF rF a s0" and s0: "blocks s0 = blocks s"
    and a: "captured a = blocks s" "startTime a = start" "duration a = dur" by blast
  have d: "0 < duration a" and f: "duration a \<le> nowF - startTime a" using dur final a by simp_all
  note fin = animate_final[OF d f, of rF s0, unfolded a(1) s0, folded r]
  have b: "blocks ?end = snd (pickAndDecrement rF (blocks s) (blocks s))" by (rule fin(1))
  have sel: "selected ?end = fst (pickAndDecrement rF (blocks s) (blocks s))"
    if "0 < totalRemaining (blocks s)"
  proof -
    from pickedIndex_cases[OF totalRemaining_nonempty[OF that], of rF] obtain k where
      "k < length (blocks s)" "pickedIndex rF (blocks s) = int k" by blast
    then have "fst (pickAndDecrement rF (blocks s) (blocks s)) \<noteq> None"
      using that by (simp add: pickAndDecrement_def elemAt_nat)
    then show ?thesis by (rule fin(4))
  qed
  have tot: "totalRemaining (blocks ?end) = totalRemaining (blocks s) - 1"
    if "0 \<le> rF \<and> rF < totalRemaining (blocks s)"
    unfolding b using that by (simp add: draw_total)
  have idle: "frames later ?end = ?end" using fin(3) by (rule frames_idle)
  from before b fin(2,3) idle sel tot show ?thesis by blast
qed


theorem reveal_single_draw_at_end_witness:
  "2 \<le> length (filter (\<lambda>b. 0 < count b) (blocks (appWith poolABC))) \<and>
   (0::int) < 2000 \<and>
   list_all (\<lambda>(now, r). now - 0 < (2000::int)) [(0, 0::int), (16, 0), (1500, 0)] \<and>
   (2000::int) \<le> 2000 - 0 \<and>
   blocks (reveal 2000 0 [(0, 0), (16, 0)] (appWith poolABC)) = poolABC \<and>
   isAnimating (reveal 2000 0 [(0, 0), (16, 0)] (appWith poolABC)) \<and>
   map count (blocks (reveal 2000 0 [(0, 0), (16, 0), (1500, 0), (2000, 4)] (appWith poolABC)))
     = [2, 0, 2] \<and>
   selected (reveal 2000 0 [(0, 0), (16, 0), (1500, 0), (2000, 4)] (appWith poolABC))
     = Some (poolABC ! 2) \<and>
   \<not> isAnimating (reveal 2000 0 [(0, 0), (16, 0), (1500, 0), (2000, 4)] (appWith poolABC)) \<and>
   totalRemaining (blocks (reveal 2000 0 [(0, 0), (16, 0), (1500, 0), (2000, 4)] (appWith poolABC)))
     = 4"
proof -
  let ?s = "appWith poolABC"
  let ?early = "[(0, 0), (16, 0), (1500, 0)] :: (int \<times> int) list"
  have bl: "blocks ?s = poolABC" by (simp add: appWith_def)
  have g: "2 \<le> length (filter (\<lambda>b. 0 < count b) (blocks ?s))"
    unfolding bl by (simp add: poolABC_def)
  have d: "(0::int) < 2000" by simp
  have e: "\<forall>(now, r)\<in>set ?early. now - 0 < (2000::int)" by simp
  have f: "(2000::int) \<le> 2000 - 0" by simp
  have p: "pickAndDecrement 4 poolABC poolABC = (Some (poolABC ! 2), decrementAt 2 poolABC)"
    by code_simp
  have c: "map count (decrementAt 2 poolABC) = [2, 0, 2]" by code_simp
  have t: "totalRemaining poolABC = 5" by code_simp
  note th = reveal_single_draw_at_end[OF g d e f, of 4 "[]", unfolded bl p t]
  have k: "0 < (2::nat) \<and> 2 \<le> length ?early" by simp
  have "take 2 ?early = [(0, 0), (16, 0)]" by simp
  with th k have m: "blocks (reveal 2000 0 [(0, 0), (16, 0)] ?s) = poolABC \<and>
      isAnimating (reveal 2000 0 [(0, 0), (16, 0)] ?s)" by metis
  have l: "list_all (\<lambda>(now, r). now - 0 < (2000::int)) ?early" by simp
  have t': "totalRemaining (decrementAt 2 poolABC) = 4" by code_simp
  show ?thesis using th g c m l t' by (simp del: reveal.simps)
qed

end
